theory Spec2Isabelle
  imports Main "HOL-Library.Sublist" "HOL-Library.Multiset"
begin

section \<open>Strings\<close>

text \<open>
  The script is a single Python file, \<^verbatim>\<open>check_file_sizes.py\<close>. Python strings are modelled
  as \<^typ>\<open>string\<close>; a \<^typ>\<open>char\<close> stands for a code point below 256. The library
  functions the script calls (\<^verbatim>\<open>str\<close> methods, \<^verbatim>\<open>os.path\<close>, \<^verbatim>\<open>fnmatch\<close>,
  \<^verbatim>\<open>pathlib\<close>, \<^verbatim>\<open>os.walk\<close>, \<^verbatim>\<open>list.sort\<close>) are modelled after CPython 3.11 on a POSIX
  system, where \<^verbatim>\<open>os.path\<close> is \<^verbatim>\<open>posixpath\<close> and \<^verbatim>\<open>os.path.normcase\<close> is the identity.
\<close>

abbreviation SLASH :: char where "SLASH \<equiv> CHR ''/''"
abbreviation BACKSLASH :: char where "BACKSLASH \<equiv> CHR 0x5C"
abbreviation LF :: char where "LF \<equiv> CHR 0x0A"
abbreviation CR :: char where "CR \<equiv> CHR 0x0D"

text \<open>\<^verbatim>\<open>s.replace('\\', '/')\<close>: every backslash becomes a slash.\<close>

definition replace_backslash :: "string \<Rightarrow> string" where
  "replace_backslash s = map (\<lambda>c. if c = BACKSLASH then SLASH else c) s"

text \<open>\<^verbatim>\<open>s.startswith(t)\<close> and \<^verbatim>\<open>s.endswith(t)\<close>.\<close>

fun startswith :: "string \<Rightarrow> string \<Rightarrow> bool" where
  "startswith s [] = True"
| "startswith [] (t # ts) = False"
| "startswith (c # cs) (t # ts) = (c = t \<and> startswith cs ts)"

definition endswith :: "string \<Rightarrow> string \<Rightarrow> bool" where
  "endswith s t = startswith (rev s) (rev t)"

text \<open>\<^verbatim>\<open>t in s\<close> for strings: \<open>t\<close> occurs in \<open>s\<close> as a contiguous substring.\<close>

fun contains :: "string \<Rightarrow> string \<Rightarrow> bool" where
  "contains [] t = (t = [])"
| "contains (c # cs) t = (startswith (c # cs) t \<or> contains cs t)"

text \<open>
  \<^verbatim>\<open>str.lower()\<close> on code points below 256: the ASCII capitals and the Latin-1 capitals
  (\<open>0xC0\<close> to \<open>0xDE\<close> without the multiplication sign \<open>0xD7\<close>) move up by 32, every
  other character stays.
\<close>

definition lower_char :: "char \<Rightarrow> char" where
  "lower_char c =
     (let n = (of_char c :: nat)
      in if (65 \<le> n \<and> n \<le> 90) \<or> (192 \<le> n \<and> n \<le> 222 \<and> n \<noteq> 215)
         then char_of (n + 32) else c)"

definition lower :: "string \<Rightarrow> string" where
  "lower s = map lower_char s"

text \<open>
  \<^verbatim>\<open>str.strip()\<close> removes whitespace at both ends. Below 256 the whitespace code points are
  \<open>0x09\<close> to \<open>0x0D\<close>, \<open>0x1C\<close> to \<open>0x20\<close>, \<open>0x85\<close> and \<open>0xA0\<close>.
\<close>

definition is_space :: "char \<Rightarrow> bool" where
  "is_space c =
     (let n = (of_char c :: nat)
      in (9 \<le> n \<and> n \<le> 13) \<or> (28 \<le> n \<and> n \<le> 32) \<or> n = 133 \<or> n = 160)"

definition strip :: "string \<Rightarrow> string" where
  "strip s = rev (dropWhile is_space (rev (dropWhile is_space s)))"

section \<open>Paths\<close>

text \<open>
  \<^verbatim>\<open>posixpath.basename\<close>: the text after the last slash
  (\<^verbatim>\<open>i = p.rfind('/') + 1; return p[i:]\<close>).
\<close>

definition basename :: "string \<Rightarrow> string" where
  "basename p = rev (takeWhile (\<lambda>c. c \<noteq> SLASH) (rev p))"

text \<open>\<^verbatim>\<open>posixpath.join(a, b)\<close> with two arguments.\<close>

definition join :: "string \<Rightarrow> string \<Rightarrow> string" where
  "join a b =
     (if startswith b ''/'' then b
      else if a = [] \<or> endswith a ''/'' then a @ b
      else a @ ''/'' @ b)"

text \<open>\<^verbatim>\<open>s.split('/')\<close>: the pieces between slashes, at least one piece.\<close>

fun split_slash :: "string \<Rightarrow> string list" where
  "split_slash [] = [[]]"
| "split_slash (c # cs) =
     (if c = SLASH then [] # split_slash cs
      else (case split_slash cs of
              [] \<Rightarrow> [[c]]
            | w # ws \<Rightarrow> (c # w) # ws))"

text \<open>The pieces of a path that name something: empty pieces and \<^verbatim>\<open>.\<close> are dropped.\<close>

definition components :: "string \<Rightarrow> string list" where
  "components p = filter (\<lambda>w. w \<noteq> [] \<and> w \<noteq> ''.'') (split_slash p)"

fun join_all :: "string list \<Rightarrow> string" where
  "join_all [] = []"
| "join_all [w] = w"
| "join_all (w # ws) = w @ ''/'' @ join_all ws"

text \<open>
  \<^verbatim>\<open>os.path.relpath(path, root_dir)\<close> with \<^verbatim>\<open>root_dir = "."\<close>, for the paths the walk
  builds: relative paths below the start directory, without a \<^verbatim>\<open>..\<close> piece. Both paths
  are made absolute and normalised, the pieces of the start directory are cut off the
  front, and the rest is joined with slashes; nothing left gives \<^verbatim>\<open>.\<close>.
\<close>

definition relpath :: "string \<Rightarrow> string" where
  "relpath p = (let rel_list = components p in if rel_list = [] then ''.'' else join_all rel_list)"

section \<open>Glob matching\<close>

text \<open>
  \<^verbatim>\<open>fnmatch.fnmatch(name, pat)\<close> translates the pattern into a regular expression and
  matches the whole name against it. The model translates the pattern into a list of
  tokens, one per piece of the regular expression, and matches the name against the
  tokens.

  \<^verbatim>\<open>translate\<close> reads the pattern left to right:
  \<^item> \<^verbatim>\<open>*\<close> adds a star, unless the piece added last is a star already;
  \<^item> \<^verbatim>\<open>?\<close> adds \<^verbatim>\<open>.\<close>, any one character (the expression is compiled with \<^verbatim>\<open>(?s:...)\<close>);
  \<^item> \<^verbatim>\<open>[\<close> looks for the closing bracket: an optional \<^verbatim>\<open>!\<close>, an optional \<^verbatim>\<open>]\<close>, then
    everything up to the next \<^verbatim>\<open>]\<close>. Without a closing bracket the \<^verbatim>\<open>[\<close> is a literal;
    with one, the text between the brackets becomes a character set;
  \<^item> any other character is a literal.
\<close>

datatype set_item = Single char | Range char char

datatype glob_tok = Star | AnyChar | Lit char | CharSet bool "set_item list" | Never

fun scan_close :: "string \<Rightarrow> (string \<times> string) option" where
  "scan_close [] = None"
| "scan_close (c # cs) =
     (if c = CHR '']'' then Some ([], cs)
      else (case scan_close cs of
              None \<Rightarrow> None
            | Some (stuff, rest) \<Rightarrow> Some (c # stuff, rest)))"

text \<open>
  \<open>find_close p\<close> is given the pattern after an opening bracket and returns the text
  between the brackets (\<^verbatim>\<open>stuff = pat[i:j]\<close>) and the pattern after the closing bracket.
\<close>

definition find_close :: "string \<Rightarrow> (string \<times> string) option" where
  "find_close p =
     (let (bang, p1) = (if startswith p ''!'' then (''!'', tl p) else ([], p));
          (brk, p2) = (if startswith p1 '']'' then ('']'', tl p1) else ([], p1))
      in case scan_close p2 of
           None \<Rightarrow> None
         | Some (stuff, rest) \<Rightarrow> Some (bang @ brk @ stuff, rest))"

text \<open>
  A set that contains a hyphen is cut into chunks at the hyphens that stand for ranges.
  The search for the first hyphen starts after the first character (after the second, when
  the set starts with \<^verbatim>\<open>!\<close>); after a hyphen at \<open>k\<close> the search goes on at \<open>k + 3\<close>.
  \<open>split_chunks skip acc s\<close>: \<open>skip\<close> characters are still to be passed over, \<open>acc\<close> is
  the chunk being collected. The last element is \<^verbatim>\<open>chunk = pat[i:j]\<close>.
\<close>

fun split_chunks :: "nat \<Rightarrow> string \<Rightarrow> string \<Rightarrow> string list" where
  "split_chunks skip acc [] = [acc]"
| "split_chunks skip acc (c # cs) =
     (if skip = 0 \<and> c = CHR ''-'' then acc # split_chunks 2 [] cs
      else split_chunks (skip - 1) (acc @ [c]) cs)"

text \<open>
  An empty last chunk means the set ends with a hyphen: the hyphen is put back on the
  chunk before (\<^verbatim>\<open>chunks[-1] += '-'\<close>).
\<close>

definition close_chunks :: "string list \<Rightarrow> string list" where
  "close_chunks chunks =
     (if chunks \<noteq> [] \<and> last chunks = [] \<and> butlast chunks \<noteq> []
      then butlast (butlast chunks) @ [last (butlast chunks) @ ''-'']
      else chunks)"

text \<open>
  Empty ranges are removed from right to left: where the last character of a chunk is
  greater than the first character of the next chunk, both characters are dropped and the
  two chunks become one.
\<close>

fun remove_empty_ranges :: "string list \<Rightarrow> string list" where
  "remove_empty_ranges [] = []"
| "remove_empty_ranges (c # cs) =
     (case remove_empty_ranges cs of
        [] \<Rightarrow> [c]
      | d # ds \<Rightarrow>
          (case (rev c, d) of
             (x # rc, y # d') \<Rightarrow>
               if (of_char x :: nat) > of_char y then (rev rc @ d') # ds else c # d # ds
           | _ \<Rightarrow> c # d # ds))"

text \<open>
  The chunks are escaped and joined with hyphens. In the joined text a character of a
  chunk is escaped where it needs to be, so it stands for itself (\<open>Ch\<close>); the hyphens
  between chunks are the only plain hyphens (\<open>Hyphen\<close>).
\<close>

datatype set_tok = Ch char | Hyphen

fun join_chunks :: "string list \<Rightarrow> set_tok list" where
  "join_chunks [] = []"
| "join_chunks [c] = map Ch c"
| "join_chunks (c # cs) = map Ch c @ Hyphen # join_chunks cs"

definition set_toks :: "string \<Rightarrow> set_tok list" where
  "set_toks stuff =
     (if CHR ''-'' \<notin> set stuff then map Ch stuff
      else join_chunks (remove_empty_ranges (close_chunks
             (split_chunks (if startswith stuff ''!'' then 2 else 1) [] stuff))))"

text \<open>
  The regular-expression compiler reads the set between the brackets item by item: an item
  followed by a plain hyphen and another item is a range; an item followed by a plain
  hyphen at the end of the set is the item and a hyphen; a plain hyphen where an item is
  expected is a hyphen.
\<close>

fun tok_char :: "set_tok \<Rightarrow> char" where
  "tok_char (Ch c) = c"
| "tok_char Hyphen = CHR ''-''"

fun parse_set :: "set_tok list \<Rightarrow> set_item list" where
  "parse_set [] = []"
| "parse_set [t] = [Single (tok_char t)]"
| "parse_set (t # Hyphen # []) = [Single (tok_char t), Single (CHR ''-'')]"
| "parse_set (t # Hyphen # u # rest) = Range (tok_char t) (tok_char u) # parse_set rest"
| "parse_set (t # Ch c # rest) = Single (tok_char t) # parse_set (Ch c # rest)"

text \<open>
  An empty set never matches (\<^verbatim>\<open>(?!)\<close>); a set that is only \<^verbatim>\<open>!\<close> matches any character;
  a leading \<^verbatim>\<open>!\<close> negates the set; a leading \<^verbatim>\<open>^\<close> or \<^verbatim>\<open>[\<close> is escaped and stands for
  itself.
\<close>

definition set_tok_of :: "string \<Rightarrow> glob_tok" where
  "set_tok_of stuff =
     (let toks = set_toks stuff
      in if toks = [] then Never
         else if toks = [Ch (CHR ''!'')] then AnyChar
         else if hd toks = Ch (CHR ''!'') then CharSet True (parse_set (tl toks))
         else CharSet False (parse_set toks))"

lemma scan_close_length: "scan_close p = Some (stuff, rest) \<Longrightarrow> length stuff + length rest < length p"
  by (induction p arbitrary: stuff rest) (auto split: if_splits option.splits)

lemma find_close_length: "find_close p = Some (stuff, rest) \<Longrightarrow> length rest < length p"
  by (cases p; cases "tl p")
     (auto simp: find_close_def Let_def split: if_splits option.splits dest!: scan_close_length)

text \<open>
  \<open>translate prev_star pat\<close>: \<open>prev_star\<close> says that the piece added last is a star
  (\<^verbatim>\<open>res[-1] is STAR\<close>); it is false at the start, where \<^verbatim>\<open>res\<close> is empty.
\<close>

function translate :: "bool \<Rightarrow> string \<Rightarrow> glob_tok list" where
  "translate prev_star [] = []"
| "translate prev_star (c # p) =
     (if c = CHR ''*'' then (if prev_star then translate True p else Star # translate True p)
      else if c = CHR ''?'' then AnyChar # translate False p
      else if c = CHR ''['' then
        (case find_close p of
           None \<Rightarrow> Lit (CHR ''['') # translate False p
         | Some (stuff, rest) \<Rightarrow> set_tok_of stuff # translate False rest)
      else Lit c # translate False p)"
  by pat_completeness auto
termination
  by (relation "measure (\<lambda>(b, p). length p)") (auto dest: find_close_length)

text \<open>Which characters a token for one character accepts.\<close>

fun item_accepts :: "set_item \<Rightarrow> char \<Rightarrow> bool" where
  "item_accepts (Single x) c = (c = x)"
| "item_accepts (Range lo hi) c = ((of_char lo :: nat) \<le> of_char c \<and> (of_char c :: nat) \<le> of_char hi)"

fun tok_accepts :: "glob_tok \<Rightarrow> char \<Rightarrow> bool" where
  "tok_accepts Star c = True"
| "tok_accepts AnyChar c = True"
| "tok_accepts (Lit x) c = (c = x)"
| "tok_accepts (CharSet neg items) c = (neg \<noteq> list_ex (\<lambda>i. item_accepts i c) items)"
| "tok_accepts Never c = False"

text \<open>
  The expression is matched against the whole name (\<^verbatim>\<open>re.match\<close> of a pattern that ends
  with \<^verbatim>\<open>\Z\<close>). A star stands for any text, also text with slashes in it. (The
  expression takes the shortest text for every star but the last; the pieces between two
  stars have a fixed length, so this finds a match whenever there is one.)
\<close>

fun tok_match :: "glob_tok list \<Rightarrow> string \<Rightarrow> bool" where
  "tok_match [] s = (s = [])"
| "tok_match (t # ts) [] = (t = Star \<and> tok_match ts [])"
| "tok_match (t # ts) (c # s) =
     (if t = Star then tok_match ts (c # s) \<or> tok_match (t # ts) s
      else tok_accepts t c \<and> tok_match ts s)"

definition fnmatch :: "string \<Rightarrow> string \<Rightarrow> bool" where
  "fnmatch name pat = tok_match (translate False pat) name"

section \<open>The matcher: \<^verbatim>\<open>should_ignore\<close>\<close>

text \<open>
  The loop over the patterns returns \<^verbatim>\<open>True\<close> at the first pattern that matches and
  \<^verbatim>\<open>False\<close> after the last one. A pattern that ends with a slash only takes the first
  branch: the \<^verbatim>\<open>elif\<close> branches are not tried for it.
\<close>

fun should_ignore_loop :: "string \<Rightarrow> string list \<Rightarrow> bool" where
  "should_ignore_loop file_path [] = False"
| "should_ignore_loop file_path (pattern # patterns) =
     (if endswith pattern ''/'' then
        (if fnmatch (file_path @ ''/'') (''*/'' @ pattern) \<or> fnmatch (file_path @ ''/'') pattern
         then True
         else should_ignore_loop file_path patterns)
      else if fnmatch file_path pattern \<or> fnmatch (basename file_path) pattern then True
      else if SLASH \<in> set pattern \<and> fnmatch file_path (''*/'' @ pattern) then True
      else should_ignore_loop file_path patterns)"

definition should_ignore :: "string \<Rightarrow> string list \<Rightarrow> bool" where
  "should_ignore file_path ignore_patterns =
     should_ignore_loop (replace_backslash file_path) ignore_patterns"

section \<open>Files and the file system\<close>

text \<open>
  The exceptions that matter here: \<^verbatim>\<open>OSError\<close> and \<^verbatim>\<open>UnicodeDecodeError\<close> are the two that
  \<^verbatim>\<open>count_lines\<close> catches; \<^verbatim>\<open>ValueError\<close> is what \<^verbatim>\<open>open\<close> raises for a path with a NUL
  character in it.
\<close>

datatype exn = OSError | UnicodeDecodeError | ValueError

text \<open>
  The file system is a tree of directories and files, without symbolic links. A file
  holds what opening and reading it in text mode gives: the decoded text, or the failure
  (\<^verbatim>\<open>OSError\<close>, or \<^verbatim>\<open>UnicodeDecodeError\<close>). A directory holds its entries in the order in
  which \<^verbatim>\<open>os.scandir\<close> lists them. The script runs in the directory \<open>cwd\<close>, given by the
  names that lead to it from the root.
\<close>

datatype failure = IOFailure | DecodeFailure

fun raised :: "failure \<Rightarrow> exn" where
  "raised IOFailure = OSError"
| "raised DecodeFailure = UnicodeDecodeError"

datatype node = File "failure + string" | Dir "(string \<times> node) list"

record filesystem =
  tree :: node
  cwd :: "string list"

abbreviation NUL :: char where "NUL \<equiv> CHR 0x00"

fun is_dir :: "node \<Rightarrow> bool" where
  "is_dir (Dir es) = True"
| "is_dir (File r) = False"

text \<open>
  Path resolution. A place in the tree is the node there together with the directories
  above it, up to the root. One piece of a path is followed from a directory only: an
  empty piece and \<^verbatim>\<open>.\<close> stay, \<^verbatim>\<open>..\<close> goes one up (and stays at the root), a name goes to
  the entry of that name.
\<close>

fun step :: "node list \<Rightarrow> string \<Rightarrow> node list option" where
  "step [] w = None"
| "step (cur # up) w =
     (case cur of
        File r \<Rightarrow> None
      | Dir es \<Rightarrow>
          if w = [] \<or> w = ''.'' then Some (cur # up)
          else if w = ''..'' then Some (if up = [] then [cur] else up)
          else (case map_of es w of
                  None \<Rightarrow> None
                | Some n \<Rightarrow> Some (n # cur # up)))"

fun steps :: "node list \<Rightarrow> string list \<Rightarrow> node list option" where
  "steps place [] = Some place"
| "steps place (w # ws) =
     (case step place w of
        None \<Rightarrow> None
      | Some place' \<Rightarrow> steps place' ws)"

definition cwd_place :: "filesystem \<Rightarrow> node list option" where
  "cwd_place fs = steps [tree fs] (cwd fs)"

text \<open>
  The node a path names, if any: the empty path names nothing; a path that starts with a
  slash is followed from the root, any other path from \<open>cwd\<close>. The pieces are those
  between the slashes, so a path with a slash at its end names a directory or nothing.
\<close>

definition resolve :: "filesystem \<Rightarrow> string \<Rightarrow> node option" where
  "resolve fs path =
     (if path = [] then None
      else
        (case (if startswith path ''/'' then Some [tree fs] else cwd_place fs) of
           None \<Rightarrow> None
         | Some place \<Rightarrow>
             (case steps place (split_slash path) of
                None \<Rightarrow> None
              | Some [] \<Rightarrow> None
              | Some (n # up) \<Rightarrow> Some n)))"

text \<open>
  \<^verbatim>\<open>os.path.exists(path)\<close>: \<^verbatim>\<open>os.stat\<close> succeeds; its \<^verbatim>\<open>OSError\<close> and \<^verbatim>\<open>ValueError\<close> give
  \<^verbatim>\<open>False\<close>.
\<close>

definition path_exists :: "filesystem \<Rightarrow> string \<Rightarrow> bool" where
  "path_exists fs path = (NUL \<notin> set path \<and> resolve fs path \<noteq> None)"

text \<open>
  \<^verbatim>\<open>open(path, 'r', encoding='utf-8', errors='ignore')\<close> and reading the file to its end.
  A path with a NUL character raises \<^verbatim>\<open>ValueError\<close>; a path that names nothing, or names
  a directory, raises \<^verbatim>\<open>OSError\<close>; a file gives its text or raises its failure.
\<close>

definition open_read :: "filesystem \<Rightarrow> string \<Rightarrow> exn + string" where
  "open_read fs path =
     (if NUL \<in> set path then Inl ValueError
      else
        (case resolve fs path of
           None \<Rightarrow> Inl OSError
         | Some (Dir es) \<Rightarrow> Inl OSError
         | Some (File (Inl e)) \<Rightarrow> Inl (raised e)
         | Some (File (Inr body)) \<Rightarrow> Inr body))"

text \<open>
  Iterating over a text file gives its lines. In text mode \<^verbatim>\<open>\n\<close>, \<^verbatim>\<open>\r\<close> and \<^verbatim>\<open>\r\n\<close>
  each end a line and are read as \<^verbatim>\<open>\n\<close>; text after the last line end is a line of its
  own. \<open>cur\<close> is the line being read.
\<close>

fun lines_from :: "string \<Rightarrow> string \<Rightarrow> string list" where
  "lines_from cur [] = (if cur = [] then [] else [cur])"
| "lines_from cur [c] =
     (if c = LF \<or> c = CR then [cur @ [LF]] else [cur @ [c]])"
| "lines_from cur (c # d # cs) =
     (if c = CR \<and> d = LF then (cur @ [LF]) # lines_from [] cs
      else if c = LF \<or> c = CR then (cur @ [LF]) # lines_from [] (d # cs)
      else lines_from (cur @ [c]) (d # cs))"

definition file_lines :: "string \<Rightarrow> string list" where
  "file_lines text = lines_from [] text"

section \<open>\<^verbatim>\<open>parse_gitignore\<close>\<close>

text \<open>The loop over the lines of the file; \<open>patterns\<close> is the list built so far.\<close>

fun parse_lines :: "string list \<Rightarrow> string list \<Rightarrow> string list" where
  "parse_lines patterns [] = patterns"
| "parse_lines patterns (line # rest) =
     (let line = strip line
      in if line \<noteq> [] \<and> \<not> startswith line ''#''
         then parse_lines (patterns @ [line]) rest
         else parse_lines patterns rest)"

text \<open>
  A file that exists and cannot be opened raises: the \<^verbatim>\<open>with open\<close> is not inside a
  \<^verbatim>\<open>try\<close>.
\<close>

definition parse_gitignore :: "filesystem \<Rightarrow> string \<Rightarrow> exn + string list" where
  "parse_gitignore fs gitignore_path =
     (if path_exists fs gitignore_path then
        (case open_read fs gitignore_path of
           Inl e \<Rightarrow> Inl e
         | Inr text \<Rightarrow> Inr (parse_lines [] (file_lines text)))
      else Inr [])"

section \<open>\<^verbatim>\<open>count_lines\<close>\<close>

text \<open>
  \<^verbatim>\<open>sum(1 for _ in f)\<close> inside \<^verbatim>\<open>try ... except (OSError, UnicodeDecodeError): return 0\<close>.
  Any other exception leaves the function.
\<close>

definition count_lines :: "filesystem \<Rightarrow> string \<Rightarrow> exn + nat" where
  "count_lines fs file_path =
     (case open_read fs file_path of
        Inl OSError \<Rightarrow> Inr 0
      | Inl UnicodeDecodeError \<Rightarrow> Inr 0
      | Inl ValueError \<Rightarrow> Inl ValueError
      | Inr body \<Rightarrow> Inr (sum_list (map (\<lambda>_. 1) (file_lines body))))"

section \<open>\<^verbatim>\<open>is_text_file\<close>\<close>

text \<open>
  \<^verbatim>\<open>Path(p).name\<close>: the last piece of the path, empty when there is none.
  \<^verbatim>\<open>Path(p).suffix\<close>: with \<open>i\<close> the place of the last dot of the name, the name from
  \<open>i\<close> on when \<^verbatim>\<open>0 < i < len(name) - 1\<close>, else the empty string.
\<close>

definition path_name :: "string \<Rightarrow> string" where
  "path_name p = (let parts = components p in if parts = [] then [] else last parts)"

definition suffix_of :: "string \<Rightarrow> string" where
  "suffix_of p =
     (let name = path_name p;
          ext = rev (takeWhile (\<lambda>c. c \<noteq> CHR ''.'') (rev name))
      in if CHR ''.'' \<in> set name \<and> length ext + 1 < length name \<and> ext \<noteq> []
         then CHR ''.'' # ext else [])"

definition text_extensions :: "string list" where
  "text_extensions =
    [''.py'', ''.js'', ''.html'', ''.css'', ''.cpp'', ''.c'', ''.h'', ''.java'', ''.rb'', ''.php'',
     ''.go'', ''.rs'', ''.swift'', ''.kt'', ''.ts'', ''.jsx'', ''.tsx'', ''.vue'', ''.scss'',
     ''.sass'', ''.less'', ''.sql'', ''.sh'', ''.bash'', ''.zsh'', ''.fish'', ''.ps1'', ''.bat'',
     ''.cmd'', ''.xml'', ''.json'', ''.yaml'', ''.yml'', ''.toml'', ''.ini'', ''.cfg'', ''.conf'',
     ''.txt'', ''.md'', ''.rst'', ''.tex'', ''.r'', ''.R'', ''.m'', ''.pl'', ''.lua'', ''.vim'',
     ''.cs'', ''.vb'', ''.fs'', ''.scala'', ''.clj'', ''.hs'', ''.elm'', ''.dart'', ''.jl'']"

definition is_text_file :: "string \<Rightarrow> bool" where
  "is_text_file file_path = (lower (suffix_of file_path) \<in> set text_extensions)"

section \<open>\<^verbatim>\<open>categorize_file\<close>\<close>

definition categorize_file :: "string \<Rightarrow> string" where
  "categorize_file file_path =
     (let normalized_path = lower (replace_backslash file_path)
      in if contains normalized_path ''/client/'' \<or> startswith normalized_path ''client/''
         then ''client''
         else if contains normalized_path ''/server/'' \<or> startswith normalized_path ''server/''
         then ''server''
         else ''other'')"

section \<open>The walk\<close>

text \<open>
  \<^verbatim>\<open>os.walk(root_dir)\<close>, top down, together with the pruning the loop body does on
  \<^verbatim>\<open>dirs\<close> before the generator goes on: for a directory \<open>dirpath\<close> it gives the triple of
  \<open>dirpath\<close>, the names of the sub-directories that are kept and the names of the other
  entries, and then walks the kept sub-directories in order. Only the directories left in
  \<^verbatim>\<open>dirs\<close> are entered. A path that is not a directory gives nothing.
\<close>

definition kept_dirs :: "string list \<Rightarrow> string \<Rightarrow> (string \<times> node) list \<Rightarrow> (string \<times> node) list" where
  "kept_dirs ignore_patterns dirpath es =
     filter (\<lambda>e. is_dir (snd e) \<and> \<not> should_ignore (relpath (join dirpath (fst e))) ignore_patterns) es"

definition file_names :: "(string \<times> node) list \<Rightarrow> string list" where
  "file_names es = map fst (filter (\<lambda>e. \<not> is_dir (snd e)) es)"

lemma kept_dirs_smaller:
  "e \<in> set (kept_dirs ignore_patterns dirpath es) \<Longrightarrow>
     size (snd e) < Suc (size_list (size_prod (\<lambda>_. 0) size) es)"
  by (induction es) (auto simp: kept_dirs_def split: if_splits)

function walk :: "string list \<Rightarrow> string \<Rightarrow> node \<Rightarrow> (string \<times> string list \<times> string list) list" where
  "walk ignore_patterns dirpath (File r) = []"
| "walk ignore_patterns dirpath (Dir es) =
     (dirpath, map fst (kept_dirs ignore_patterns dirpath es), file_names es) #
     concat (map (\<lambda>e. walk ignore_patterns (join dirpath (fst e)) (snd e))
                 (kept_dirs ignore_patterns dirpath es))"
  by pat_completeness auto
termination
  by (relation "measure (\<lambda>(ps, d, n). size n)") (auto dest: kept_dirs_smaller)

text \<open>
  The walk of \<^verbatim>\<open>.\<close>: \<^verbatim>\<open>os.walk\<close> gives nothing when \<^verbatim>\<open>.\<close> cannot be listed. (The walk
  goes down the tree entry by entry; \<^verbatim>\<open>os.walk\<close> lists each directory by its path, which
  is the same for entries with the names a file system gives them.)
\<close>

definition os_walk :: "filesystem \<Rightarrow> string list \<Rightarrow> (string \<times> string list \<times> string list) list" where
  "os_walk fs ignore_patterns =
     (case resolve fs ''.'' of
        None \<Rightarrow> []
      | Some n \<Rightarrow> walk ignore_patterns ''.'' n)"

text \<open>The three lists the loop fills.\<close>

record file_lists =
  client_files :: "(string \<times> nat) list"
  server_files :: "(string \<times> nat) list"
  other_files :: "(string \<times> nat) list"

definition empty_lists :: file_lists where
  "empty_lists = \<lparr>client_files = [], server_files = [], other_files = []\<rparr>"

text \<open>
  The body of \<^verbatim>\<open>for file in files\<close>. An exception that leaves \<^verbatim>\<open>count_lines\<close> ends the
  run.
\<close>

definition process_file :: "filesystem \<Rightarrow> string list \<Rightarrow> string \<Rightarrow> file_lists \<Rightarrow> string \<Rightarrow> exn + file_lists" where
  "process_file fs ignore_patterns root st file =
     (let file_path = join root file;
          rel_path = relpath file_path
      in if should_ignore rel_path ignore_patterns \<or> \<not> is_text_file file_path then Inr st
         else
           (case count_lines fs file_path of
              Inl e \<Rightarrow> Inl e
            | Inr line_count \<Rightarrow>
                if line_count > 0 then
                  (let category = categorize_file rel_path;
                       file_entry = (rel_path, line_count)
                   in if category = ''client''
                      then Inr (st\<lparr>client_files := client_files st @ [file_entry]\<rparr>)
                      else if category = ''server''
                      then Inr (st\<lparr>server_files := server_files st @ [file_entry]\<rparr>)
                      else Inr (st\<lparr>other_files := other_files st @ [file_entry]\<rparr>))
                else Inr st))"

text \<open>The loop \<^verbatim>\<open>for file in files\<close>; it stops at the first exception.\<close>

fun process_files :: "filesystem \<Rightarrow> string list \<Rightarrow> string \<Rightarrow> file_lists \<Rightarrow> string list \<Rightarrow> exn + file_lists" where
  "process_files fs ignore_patterns root st [] = Inr st"
| "process_files fs ignore_patterns root st (file # files) =
     (case process_file fs ignore_patterns root st file of
        Inl e \<Rightarrow> Inl e
      | Inr st' \<Rightarrow> process_files fs ignore_patterns root st' files)"

text \<open>The loop \<^verbatim>\<open>for root, dirs, files in os.walk(root_dir)\<close> after the pruning.\<close>

fun process_dirs :: "filesystem \<Rightarrow> string list \<Rightarrow> file_lists \<Rightarrow> (string \<times> string list \<times> string list) list \<Rightarrow> exn + file_lists" where
  "process_dirs fs ignore_patterns st [] = Inr st"
| "process_dirs fs ignore_patterns st (triple # triples) =
     (case process_files fs ignore_patterns (fst triple) st (snd (snd triple)) of
        Inl e \<Rightarrow> Inl e
      | Inr st' \<Rightarrow> process_dirs fs ignore_patterns st' triples)"

definition collect :: "filesystem \<Rightarrow> string list \<Rightarrow> exn + file_lists" where
  "collect fs ignore_patterns =
     process_dirs fs ignore_patterns empty_lists (os_walk fs ignore_patterns)"

section \<open>Patterns, sorting and the report\<close>

definition common_patterns :: "string list" where
  "common_patterns =
     [''.git/'', ''__pycache__/'', ''*.pyc'', ''.DS_Store'', ''node_modules/'', ''.vscode/'',
      ''.idea/'', ''*.log'']"

text \<open>
  \<^verbatim>\<open>xs.sort(key=lambda x: x[1], reverse=True)\<close>. The sort is stable; for
  \<^verbatim>\<open>reverse=True\<close> the list is reversed, sorted in ascending order of the key by the same
  stable sort, and reversed again.
\<close>

definition sort_desc :: "(string \<times> nat) list \<Rightarrow> (string \<times> nat) list" where
  "sort_desc xs = rev (sort_key snd (rev xs))"

text \<open>Decimal digits of a number, and \<^verbatim>\<open>{n:<8}\<close>: left-aligned in a field of width 8.\<close>

function show_nat :: "nat \<Rightarrow> string" where
  "show_nat n = (if n < 10 then [char_of (48 + n)] else show_nat (n div 10) @ [char_of (48 + n mod 10)])"
  by pat_completeness auto
termination
  by (relation "measure id") auto

definition ljust :: "nat \<Rightarrow> string \<Rightarrow> string" where
  "ljust w s = s @ replicate (w - length s) (CHR '' '')"

text \<open>
  What is printed is a list of lines; \<^verbatim>\<open>print("\n" + s)\<close> prints an empty line and then
  \<open>s\<close>.
\<close>

definition print_file_list :: "string \<Rightarrow> (string \<times> nat) list \<Rightarrow> string list" where
  "print_file_list title file_list =
     (if file_list = [] then [[], title @ '': No files found'']
      else
        [[], title @ '':'', ljust 8 ''Lines'' @ '' File'', replicate 60 (CHR ''-'')] @
        map (\<lambda>(file_path, line_count). ljust 8 (show_nat line_count) @ '' '' @ file_path) file_list @
        [[], ''Files in '' @ lower title @ '': '' @ show_nat (length file_list),
         ''Total lines in '' @ lower title @ '': '' @
           show_nat (foldl (\<lambda>total_lines (file_path, line_count). total_lines + line_count) 0 file_list)])"

definition report :: "file_lists \<Rightarrow> string list" where
  "report st =
     (let client_files = sort_desc (client_files st);
          server_files = sort_desc (server_files st);
          other_files = sort_desc (other_files st);
          total_files = length client_files + length server_files + length other_files;
          total_lines = sum_list (map snd client_files) + sum_list (map snd server_files) +
                        sum_list (map snd other_files)
      in [replicate 60 (CHR ''=''), ''CODE ANALYSIS BY CATEGORY'', replicate 60 (CHR ''='')] @
         print_file_list ''CLIENT FILES'' client_files @
         print_file_list ''SERVER FILES'' server_files @
         print_file_list ''OTHER FILES'' other_files @
         [[], replicate 60 (CHR ''=''), ''OVERALL SUMMARY'', replicate 60 (CHR ''=''),
          ''Total files analyzed: '' @ show_nat total_files,
          ''Total lines of code: '' @ show_nat total_lines,
          ''Client files: '' @ show_nat (length client_files),
          ''Server files: '' @ show_nat (length server_files),
          ''Other files: '' @ show_nat (length other_files)])"

text \<open>
  \<^verbatim>\<open>main\<close>: the patterns of \<^verbatim>\<open>./.gitignore\<close>, then the common patterns, the walk, the
  report. An exception of \<^verbatim>\<open>parse_gitignore\<close> or of the walk ends the run.
\<close>

definition ignore_patterns_of :: "filesystem \<Rightarrow> exn + string list" where
  "ignore_patterns_of fs =
     (case parse_gitignore fs (join ''.'' ''.gitignore'') of
        Inl e \<Rightarrow> Inl e
      | Inr ignore_patterns \<Rightarrow> Inr (ignore_patterns @ common_patterns))"

definition main :: "filesystem \<Rightarrow> exn + string list" where
  "main fs =
     (case ignore_patterns_of fs of
        Inl e \<Rightarrow> Inl e
      | Inr ignore_patterns \<Rightarrow>
          (case collect fs ignore_patterns of
             Inl e \<Rightarrow> Inl e
           | Inr st \<Rightarrow> Inr (report st)))"

section \<open>Notions used in the statements\<close>

text \<open>Every record in the three lists has a line count of at least 1.\<close>

definition counts_positive :: "file_lists \<Rightarrow> bool" where
  "counts_positive st =
     list_all (\<lambda>e. 1 \<le> snd e) (client_files st @ server_files st @ other_files st)"

text \<open>
  A directory with an empty file, a file that cannot be read, a file of one line and an
  empty directory.
\<close>

definition zero_fs :: filesystem where
  "zero_fs =
     \<lparr>tree = Dir [(''empty.py'', File (Inr [])), (''gone.py'', File (Inl IOFailure)),
                  (''one.py'', File (Inr ''x = 1'')), (''sub'', Dir [])],
      cwd = []\<rparr>"

text \<open>
  A name without a NUL character, as every name in a file system is; in \<open>nul_free n\<close>
  every entry below \<open>n\<close> has such a name, in \<open>start_nul_free fs\<close> every entry below
  the directory the script runs in.
\<close>

fun nul_free :: "node \<Rightarrow> bool" where
  "nul_free (File r) = True"
| "nul_free (Dir es) = list_all (\<lambda>e. NUL \<notin> set (fst e) \<and> nul_free (snd e)) es"

definition start_nul_free :: "filesystem \<Rightarrow> bool" where
  "start_nul_free fs = (case resolve fs ''.'' of None \<Rightarrow> True | Some n \<Rightarrow> nul_free n)"




text \<open>
  What the loop of \<^verbatim>\<open>should_ignore\<close> tests for one pattern: the first branch for a pattern
  that ends with a slash, the two \<^verbatim>\<open>elif\<close> branches for any other pattern.
\<close>

definition hits :: "string \<Rightarrow> string \<Rightarrow> bool" where
  "hits file_path pattern =
     (if endswith pattern ''/'' then
        fnmatch (file_path @ ''/'') (''*/'' @ pattern) \<or> fnmatch (file_path @ ''/'') pattern
      else fnmatch file_path pattern \<or> fnmatch (basename file_path) pattern \<or>
           (SLASH \<in> set pattern \<and> fnmatch file_path (''*/'' @ pattern)))"

text \<open>
  A name that a directory entry can have: not empty, without a slash, not \<^verbatim>\<open>.\<close>. In
  \<open>names_ok fs\<close> every entry of the tree has such a name.
\<close>

definition name_ok :: "string \<Rightarrow> bool" where
  "name_ok w = (w \<noteq> [] \<and> SLASH \<notin> set w \<and> w \<noteq> ''.'')"

fun names_ok :: "node \<Rightarrow> bool" where
  "names_ok (File r) = True"
| "names_ok (Dir es) = list_all (\<lambda>e. name_ok (fst e) \<and> names_ok (snd e)) es"

text \<open>The entries below the directory the script runs in have such names.\<close>

definition start_names_ok :: "filesystem \<Rightarrow> bool" where
  "start_names_ok fs = (case resolve fs ''.'' of None \<Rightarrow> True | Some n \<Rightarrow> names_ok n)"

text \<open>
  \<open>chain_kept pats dirpath ds\<close>: going down from \<open>dirpath\<close> through the directories
  \<open>ds\<close>, one after the other, no directory on the way has a relative path that is ignored.
\<close>

fun chain_kept :: "string list \<Rightarrow> string \<Rightarrow> string list \<Rightarrow> bool" where
  "chain_kept pats dirpath [] = True"
| "chain_kept pats dirpath (d # ds) =
     (\<not> should_ignore (relpath (join dirpath d)) pats \<and> chain_kept pats (join dirpath d) ds)"

text \<open>The records held in the three lists.\<close>

definition entries :: "file_lists \<Rightarrow> (string \<times> nat) set" where
  "entries st = set (client_files st) \<union> set (server_files st) \<union> set (other_files st)"

text \<open>The names \<open>ws\<close>, each with a slash in front.\<close>

definition slashed :: "string list \<Rightarrow> string" where
  "slashed ws = concat (map (\<lambda>w. SLASH # w) ws)"

text \<open>A tree with a dependency cache next to a source directory.\<close>

definition prune_fs :: filesystem where
  "prune_fs =
     \<lparr>tree = Dir [(''node_modules'', Dir [(''pkg'', Dir [(''index.js'', File (Inr [CHR ''x'', LF]))])]),
                  (''src'', Dir [(''a.js'', File (Inr [CHR ''y'', LF]))])],
      cwd = []\<rparr>"

text \<open>
  The tree of the end-to-end scenario, for any contents of the three files; the ignore file
  holds the one pattern \<^verbatim>\<open>*.md\<close>. \<open>scenario_report\<close> is the output expected for it.
\<close>

definition scenario_tree :: "string \<Rightarrow> string \<Rightarrow> string \<Rightarrow> node" where
  "scenario_tree app main_go readme =
     Dir [(''client'', Dir [(''app.ts'', File (Inr app))]),
          (''server'', Dir [(''main.go'', File (Inr main_go))]),
          (''README.md'', File (Inr readme)),
          (''.gitignore'', File (Inr [CHR ''*'', CHR ''.'', CHR ''m'', CHR ''d'', LF]))]"

text \<open>The script runs in the directory \<open>t\<close>.\<close>

definition runs_in :: "filesystem \<Rightarrow> node \<Rightarrow> bool" where
  "runs_in fs t = (case cwd_place fs of Some (n # up) \<Rightarrow> n = t | _ \<Rightarrow> False)"

text \<open>A file system with the scenario's tree two directories below the root.\<close>

definition scenario_fs :: "string \<Rightarrow> string \<Rightarrow> string \<Rightarrow> filesystem" where
  "scenario_fs app main_go readme =
     \<lparr>tree = Dir [(''home'', Dir [(''proj'', scenario_tree app main_go readme)])],
      cwd = [''home'', ''proj'']\<rparr>"

definition scenario_patterns :: "string list" where
  "scenario_patterns = ''*.md'' # common_patterns"

definition scenario_report :: "string list" where
  "scenario_report =
     [replicate 60 (CHR ''=''), ''CODE ANALYSIS BY CATEGORY'', replicate 60 (CHR ''=''),
      [], ''CLIENT FILES:'', ''Lines    File'', replicate 60 (CHR ''-''),
      ''10       client/app.ts'',
      [], ''Files in client files: 1'', ''Total lines in client files: 10'',
      [], ''SERVER FILES:'', ''Lines    File'', replicate 60 (CHR ''-''),
      ''20       server/main.go'',
      [], ''Files in server files: 1'', ''Total lines in server files: 20'',
      [], ''OTHER FILES: No files found'',
      [], replicate 60 (CHR ''=''), ''OVERALL SUMMARY'', replicate 60 (CHR ''=''),
      ''Total files analyzed: 2'', ''Total lines of code: 30'',
      ''Client files: 1'', ''Server files: 1'', ''Other files: 0'']"

section \<open>Line counting\<close>


lemma open_read_value_error: "open_read fs p = Inl ValueError \<longleftrightarrow> NUL \<in> set p"
proof -
  have "raised e \<noteq> ValueError" for e by (cases e) simp_all
  then show ?thesis
    by (auto simp: open_read_def split: option.splits node.splits sum.splits)
qed

lemma count_lines_raises: "count_lines fs p = Inl e \<longleftrightarrow> e = ValueError \<and> NUL \<in> set p"
  using open_read_value_error [of fs p]
  by (auto simp: count_lines_def split: sum.splits exn.splits)




section \<open>The extension check\<close>




section \<open>The classifier\<close>

lemma startswith_prefix: "startswith s t = prefix t s"
  by (induction s t rule: startswith.induct) auto

lemma contains_sublist: "contains s t = sublist t s"
  by (induction s) (auto simp: startswith_prefix sublist_Cons_right)

text \<open>
  Claim C8. \<^verbatim>\<open>categorize_file\<close> turns backslashes into slashes and lower-cases the path;
  the result is \<^verbatim>\<open>client\<close> when the path contains \<^verbatim>\<open>/client/\<close> or starts with
  \<^verbatim>\<open>client/\<close>, else \<^verbatim>\<open>server\<close> when it contains \<^verbatim>\<open>/server/\<close> or starts with
  \<^verbatim>\<open>server/\<close>, else \<^verbatim>\<open>other\<close>, for every path; the three examples of the specification
  come out as stated.
\<close>

theorem categorize_file_spec:
  "categorize_file p =
     (let n = lower (replace_backslash p)
      in if sublist ''/client/'' n \<or> prefix ''client/'' n then ''client''
         else if sublist ''/server/'' n \<or> prefix ''server/'' n then ''server''
         else ''other'') \<and>
   categorize_file ''client/foo.go'' = ''client'' \<and>
   categorize_file ''Server/Foo.TS'' = ''server'' \<and>
   categorize_file ''lib/foo.py'' = ''other''"
proof -
  have "categorize_file ''client/foo.go'' = ''client''"
    by code_simp
  moreover have "categorize_file ''Server/Foo.TS'' = ''server''"
    by code_simp
  moreover have "categorize_file ''lib/foo.py'' = ''other''"
    by code_simp
  ultimately show ?thesis
    by (simp add: categorize_file_def startswith_prefix contains_sublist Let_def)
qed

theorem categorize_file_spec_witness:
  "categorize_file [CHR ''S'', CHR ''r'', CHR ''c'', BACKSLASH, CHR ''C'', CHR ''l'', CHR ''i'',
     CHR ''e'', CHR ''n'', CHR ''t'', BACKSLASH, CHR ''a'', CHR ''.'', CHR ''t'', CHR ''s''] = ''client'' \<and>
   categorize_file ''clients/app.ts'' = ''other'' \<and>
   categorize_file ''server/client/x.py'' = ''client''"
  using categorize_file_spec [of "''clients/app.ts''"]
  by (simp add: Let_def) code_simp

section \<open>The pattern store\<close>





section \<open>The walker records no empty file\<close>

lemma process_file_positive:
  "counts_positive st \<Longrightarrow> process_file fs pats root st f = Inr st' \<Longrightarrow> counts_positive st'"
  by (auto simp: process_file_def counts_positive_def Let_def split: if_splits sum.splits)

lemma process_files_positive:
  "counts_positive st \<Longrightarrow> process_files fs pats root st files = Inr st' \<Longrightarrow> counts_positive st'"
proof (induction files arbitrary: st)
  case Nil
  then show ?case by simp
next
  case (Cons f files)
  then show ?case by (auto split: sum.splits dest: process_file_positive)
qed

lemma process_dirs_positive:
  "counts_positive st \<Longrightarrow> process_dirs fs pats st ts = Inr st' \<Longrightarrow> counts_positive st'"
proof (induction ts arbitrary: st)
  case Nil
  then show ?case by simp
next
  case (Cons t ts)
  then show ?case by (auto split: sum.splits dest: process_files_positive)
qed

lemma join_nul_free: "NUL \<notin> set a \<Longrightarrow> NUL \<notin> set b \<Longrightarrow> NUL \<notin> set (join a b)"
  by (simp add: join_def)

lemma process_file_returns:
  "NUL \<notin> set (join root f) \<Longrightarrow> \<exists>st'. process_file fs pats root st f = Inr st'"
  using count_lines_raises [of fs "join root f"]
  by (cases "count_lines fs (join root f)") (auto simp: process_file_def Let_def)

lemma process_files_returns:
  "NUL \<notin> set root \<Longrightarrow> \<forall>f \<in> set files. NUL \<notin> set f \<Longrightarrow>
     \<exists>st'. process_files fs pats root st files = Inr st'"
proof (induction files arbitrary: st)
  case Nil
  then show ?case by simp
next
  case (Cons f files)
  then have "NUL \<notin> set (join root f)" by (simp add: join_nul_free)
  then obtain st1 where "process_file fs pats root st f = Inr st1"
    using process_file_returns by blast
  with Cons show ?case by simp
qed

lemma process_dirs_returns:
  "\<forall>t \<in> set ts. NUL \<notin> set (fst t) \<and> (\<forall>f \<in> set (snd (snd t)). NUL \<notin> set f) \<Longrightarrow>
     \<exists>st'. process_dirs fs pats st ts = Inr st'"
proof (induction ts arbitrary: st)
  case Nil
  then show ?case by simp
next
  case (Cons t ts)
  then obtain st1 where "process_files fs pats (fst t) st (snd (snd t)) = Inr st1"
    using process_files_returns [of "fst t" "snd (snd t)" fs pats st] by auto
  with Cons show ?case by simp
qed

lemma walk_nul_free:
  "(r, dirs, files) \<in> set (walk pats dirpath n) \<Longrightarrow> nul_free n \<Longrightarrow> NUL \<notin> set dirpath \<Longrightarrow>
     NUL \<notin> set r \<and> (\<forall>f \<in> set files. NUL \<notin> set f)"
proof (induction pats dirpath n arbitrary: r dirs files rule: walk.induct)
  case (1 ignore_patterns dirpath r)
  then show ?case by simp
next
  case (2 ignore_patterns dirpath es)
  from "2.prems"(1) consider
    (here) "r = dirpath" "files = file_names es"
    | (below) e where "e \<in> set (kept_dirs ignore_patterns dirpath es)"
        "(r, dirs, files) \<in> set (walk ignore_patterns (join dirpath (fst e)) (snd e))"
    by auto
  then show ?case
  proof cases
    case here
    with "2.prems"(2,3) show ?thesis by (auto simp: file_names_def list_all_iff)
  next
    case below
    from below(1) have "e \<in> set es" by (simp add: kept_dirs_def)
    with "2.prems"(2) have "NUL \<notin> set (fst e)" "nul_free (snd e)" by (auto simp: list_all_iff)
    with "2.IH" [OF below] "2.prems"(3) show ?thesis by (simp add: join_nul_free)
  qed
qed

lemma collect_returns: "start_nul_free fs \<Longrightarrow> \<exists>st. collect fs pats = Inr st"
proof (cases "resolve fs ''.''")
  case None
  then show ?thesis by (simp add: collect_def os_walk_def)
next
  case (Some n)
  assume "start_nul_free fs"
  with Some have nf: "nul_free n" by (simp add: start_nul_free_def)
  have "\<forall>t \<in> set (walk pats ''.'' n). NUL \<notin> set (fst t) \<and> (\<forall>f \<in> set (snd (snd t)). NUL \<notin> set f)"
  proof
    fix t assume "t \<in> set (walk pats ''.'' n)"
    then have "(fst t, fst (snd t), snd (snd t)) \<in> set (walk pats ''.'' n)" by simp
    from walk_nul_free [OF this nf] show "NUL \<notin> set (fst t) \<and> (\<forall>f \<in> set (snd (snd t)). NUL \<notin> set f)"
      by simp
  qed
  then show ?thesis using Some process_dirs_returns by (simp add: collect_def os_walk_def)
qed

text \<open>
  Claim C6. The three lists start empty; every step of the loop over the files, and so
  every pass of the loop over the directories, keeps all line counts in the lists at 1 or
  more; so does the result of the walk. (With names as a file system has them, without a
  NUL character, the walk does return its result.)
\<close>

theorem walker_never_records_zero:
  "counts_positive empty_lists \<and>
   (counts_positive st \<and> process_file fs pats root st f = Inr st' \<longrightarrow> counts_positive st') \<and>
   (counts_positive st \<and> process_files fs pats root st files = Inr st' \<longrightarrow> counts_positive st') \<and>
   (collect fs pats = Inr res \<longrightarrow>
      counts_positive res \<and>
      (\<forall>e \<in> set (client_files res) \<union> set (server_files res) \<union> set (other_files res).
         1 \<le> snd e)) \<and>
   (start_nul_free fs \<longrightarrow> (\<exists>res. collect fs pats = Inr res))"
proof -
  have e: "counts_positive empty_lists" by (simp add: counts_positive_def empty_lists_def)
  have c: "counts_positive res" if "collect fs pats = Inr res"
    using that e process_dirs_positive unfolding collect_def by blast
  have b: "\<forall>e \<in> set (client_files res) \<union> set (server_files res) \<union> set (other_files res).
      1 \<le> snd e" if "collect fs pats = Inr res"
    using c [OF that] unfolding counts_positive_def list_all_iff by auto
  show ?thesis
    using e c b process_file_positive process_files_positive collect_returns by blast
qed

theorem walker_never_records_zero_witness:
  "start_nul_free zero_fs \<and>
   process_file zero_fs [] ''.'' empty_lists ''empty.py'' = Inr empty_lists \<and>
   process_file zero_fs [] ''.'' empty_lists ''gone.py'' = Inr empty_lists \<and>
   collect zero_fs [] =
     Inr \<lparr>client_files = [], server_files = [], other_files = [(''one.py'', 1)]\<rparr> \<and>
   counts_positive \<lparr>client_files = [], server_files = [], other_files = [(''one.py'', 1)]\<rparr>"
proof -
  have n: "start_nul_free zero_fs" by code_simp
  have p: "process_file zero_fs [] ''.'' empty_lists ''empty.py'' = Inr empty_lists"
    "process_file zero_fs [] ''.'' empty_lists ''gone.py'' = Inr empty_lists"
    by code_simp+
  have c: "collect zero_fs [] =
     Inr \<lparr>client_files = [], server_files = [], other_files = [(''one.py'', 1)]\<rparr>"
    by code_simp
  show ?thesis
    using n p c
      walker_never_records_zero [of empty_lists zero_fs "[]" "''.''" "''empty.py''" empty_lists "[]"
        "\<lparr>client_files = [], server_files = [], other_files = [(''one.py'', 1)]\<rparr>"]
    by simp
qed

section \<open>The sort of the report\<close>

lemma sorted_wrt_rev_ge: "sorted (map f xs) \<Longrightarrow> sorted_wrt (\<lambda>a b. f b \<le> f a) (rev xs)"
  for f :: "'a \<Rightarrow> nat"
  by (simp add: sorted_wrt_rev sorted_map)

text \<open>
  Claim C4. The sort of each list gives the records in non-increasing order of line count,
  it only reorders them, and records with the same count keep the order in which they were
  found.
\<close>

theorem sort_desc_stable:
  "sorted_wrt (\<lambda>a b. snd b \<le> snd a) (sort_desc xs) \<and>
   mset (sort_desc xs) = mset xs \<and>
   (\<forall>k. filter (\<lambda>e. snd e = k) (sort_desc xs) = filter (\<lambda>e. snd e = k) xs)"
proof (intro conjI allI)
  show "sorted_wrt (\<lambda>a b. snd b \<le> snd a) (sort_desc xs)"
    unfolding sort_desc_def by (rule sorted_wrt_rev_ge) simp
  show "mset (sort_desc xs) = mset xs" by (simp add: sort_desc_def)
  fix k
  have "filter (\<lambda>e. snd e = k) (sort_key snd (rev xs)) = filter (\<lambda>e. snd e = k) (rev xs)"
    by (rule sort_key_stable)
  then show "filter (\<lambda>e. snd e = k) (sort_desc xs) = filter (\<lambda>e. snd e = k) xs"
    by (simp add: sort_desc_def rev_filter [symmetric])
qed

theorem sort_desc_stable_witness:
  "sort_desc [(''a.py'', 3), (''b.py'', 7), (''c.py'', 3), (''d.py'', 7), (''e.py'', 1)] =
     [(''b.py'', 7), (''d.py'', 7), (''a.py'', 3), (''c.py'', 3), (''e.py'', 1)] \<and>
   filter (\<lambda>e. snd e = 3) (sort_desc [(''a.py'', 3), (''b.py'', 7), (''c.py'', 3), (''d.py'', 7), (''e.py'', 1)]) =
     [(''a.py'', 3), (''c.py'', 3)]"
  using sort_desc_stable [of "[(''a.py'', 3), (''b.py'', 7), (''c.py'', 3), (''d.py'', 7), (''e.py'', 1)]"]
  by (simp add: sort_desc_def)

section \<open>The matcher\<close>

lemma should_ignore_loop_iff: "should_ignore_loop fp S = (\<exists>pat \<in> set S. hits fp pat)"
  by (induction S) (auto simp: hits_def)

lemma endswith_slash: "endswith p ''/'' = (p \<noteq> [] \<and> last p = SLASH)"
  by (cases p rule: rev_cases) (auto simp: endswith_def)

lemma scan_close_split: "scan_close p = Some (stuff, rest) \<Longrightarrow> p = stuff @ CHR '']'' # rest"
  by (induction p arbitrary: stuff rest) (auto split: if_splits option.splits)

lemma find_close_split: "find_close p = Some (stuff, rest) \<Longrightarrow> \<exists>mid. p = mid @ CHR '']'' # rest"
proof -
  assume a: "find_close p = Some (stuff, rest)"
  define p1 where "p1 = (if startswith p ''!'' then tl p else p)"
  define p2 where "p2 = (if startswith p1 '']'' then tl p1 else p1)"
  from a obtain s where s: "scan_close p2 = Some (s, rest)"
    by (auto simp: find_close_def p1_def p2_def Let_def split: if_splits option.splits)
  then have "p2 = s @ CHR '']'' # rest" by (rule scan_close_split)
  moreover have "\<exists>a. p1 = a @ p2" unfolding p2_def by (cases p1) auto
  moreover have "\<exists>a. p = a @ p1" unfolding p1_def by (cases p) auto
  ultimately show ?thesis by (metis append.assoc)
qed

lemma translate_last_lit:
  "p \<noteq> [] \<Longrightarrow> last p = SLASH \<Longrightarrow> \<exists>ts. translate b p = ts @ [Lit SLASH]"
proof (induction b p rule: translate.induct)
  case (1 prev_star)
  then show ?case by simp
next
  case (2 prev_star c p)
  show ?case
  proof (cases "p = []")
    case True
    with "2.prems" have "c = SLASH" by simp
    with True show ?thesis by simp
  next
    case False
    with "2.prems" have lp: "last p = SLASH" by simp
    show ?thesis
    proof (cases "c = CHR ''*''")
      case True
      then show ?thesis using "2.IH"(1,2) False lp by (cases prev_star) auto
    next
      case ns: False
      show ?thesis
      proof (cases "c = CHR ''?''")
        case True
        then show ?thesis using "2.IH"(3) False lp ns by auto
      next
        case nq: False
        show ?thesis
        proof (cases "c = CHR ''[''")
          case nb: False
          then show ?thesis using "2.IH"(6) False lp ns nq by auto
        next
          case True
          show ?thesis
          proof (cases "find_close p")
            case None
            then show ?thesis using "2.IH"(4) True False lp ns nq by auto
          next
            case (Some a)
            obtain stuff rest where a: "a = (stuff, rest)" by (cases a)
            from Some a obtain mid where m: "p = mid @ CHR '']'' # rest"
              using find_close_split by blast
            with lp have "rest \<noteq> []" "last rest = SLASH" by (auto split: if_splits)
            then obtain ts where "translate False rest = ts @ [Lit SLASH]"
              using "2.IH"(5) [OF ns nq True Some [unfolded a] refl] by blast
            then have "translate prev_star (c # p) = (set_tok_of stuff # ts) @ [Lit SLASH]"
              using True Some a ns nq by simp
            then show ?thesis by blast
          qed
        qed
      qed
    qed
  qed
qed

lemma tok_match_last_lit: "tok_match (ts @ [Lit x]) s \<Longrightarrow> s \<noteq> [] \<and> last s = x"
proof (induction "ts @ [Lit x]" s arbitrary: ts rule: tok_match.induct)
  case (1 s)
  then show ?case by simp
next
  case (2 t ts')
  then show ?case by (cases ts) auto
next
  case (3 t ts' c s)
  then show ?case by (cases ts) (auto split: if_splits)
qed

lemma fnmatch_dir_pattern:
  assumes "endswith pat ''/''" and "fnmatch s pat"
  shows "s \<noteq> [] \<and> last s = SLASH"
proof -
  from assms(1) obtain ts where "translate False pat = ts @ [Lit SLASH]"
    using translate_last_lit [of pat False] by (auto simp: endswith_slash)
  with assms(2) have "tok_match (ts @ [Lit SLASH]) s" by (simp add: fnmatch_def)
  then show ?thesis by (rule tok_match_last_lit)
qed

lemma basename_no_slash: "SLASH \<notin> set (basename p)"
  using set_takeWhileD by (fastforce simp: basename_def)

lemma dir_pattern_misses_basename: "endswith pat ''/'' \<Longrightarrow> \<not> fnmatch (basename p) pat"
  using fnmatch_dir_pattern [of pat "basename p"] basename_no_slash [of p]
  by (metis last_in_set)

lemma tok_match_star_skip: "tok_match ts s \<Longrightarrow> tok_match (Star # ts) (x @ s)"
proof (induction x)
  case Nil
  then show ?case by (cases s) auto
next
  case (Cons a x)
  then show ?case by simp
qed

lemma tok_match_self:
  "CHR ''['' \<notin> set p \<Longrightarrow> tok_match (translate False p) p \<and> tok_match (Star # translate True p) p"
proof (induction p)
  case Nil
  then show ?case by simp
next
  case (Cons c p)
  then have ih: "tok_match (translate False p) p" "tok_match (Star # translate True p) p"
    and nb: "c \<noteq> CHR ''[''" by auto
  show ?case
  proof (cases "c = CHR ''*''")
    case True
    with ih show ?thesis by simp
  next
    case ns: False
    show ?thesis
    proof (cases "c = CHR ''?''")
      case True
      with ih ns show ?thesis by simp
    next
      case False
      with ih ns nb show ?thesis by simp
    qed
  qed
qed

lemma fnmatch_self: "CHR ''['' \<notin> set p \<Longrightarrow> fnmatch p p"
  by (simp add: fnmatch_def tok_match_self)

lemma fnmatch_star_slash:
  assumes "CHR ''['' \<notin> set p"
  shows "fnmatch (x @ ''/'' @ p) (''*/'' @ p)"
proof -
  have "tok_match (Lit SLASH # translate False p) (''/'' @ p)"
    using assms by (simp add: tok_match_self)
  then have "tok_match (Star # Lit SLASH # translate False p) (x @ ''/'' @ p)"
    by (rule tok_match_star_skip)
  then show ?thesis by (simp add: fnmatch_def)
qed

lemma basename_split: "p = basename p \<or> (\<exists>x. p = x @ ''/'' @ basename p)"
proof (cases "SLASH \<in> set p")
  case False
  then have "takeWhile (\<lambda>c. c \<noteq> SLASH) (rev p) = rev p" by (intro takeWhile_eq_all_conv [THEN iffD2]) auto
  then show ?thesis unfolding basename_def by (metis rev_rev_ident)
next
  case True
  then have "SLASH \<in> set (rev p)" by simp
  then obtain ys zs where yz: "rev p = ys @ SLASH # zs" "SLASH \<notin> set ys"
    by (meson split_list_first)
  then have "takeWhile (\<lambda>c. c \<noteq> SLASH) (rev p) = ys"
    by (auto simp: takeWhile_tail)
  then have b: "basename p = rev ys" by (simp add: basename_def)
  from yz(1) have "p = rev zs @ ''/'' @ rev ys" by (metis rev_append rev_rev_ident rev.simps append_Cons append_Nil append.assoc)
  with b show ?thesis by auto
qed

text \<open>
  Claim C1, amended. Let the patterns hold a directory pattern \<open>d/\<close>. A path is ignored
  when the path followed by a slash matches the glob \<open>*/d/\<close> or the glob \<open>d/\<close>. When
  \<open>d\<close> has no opening bracket, so that \<open>d\<close> read as a glob matches its own text, a path
  that is \<open>d\<close>, or ends with a slash followed by \<open>d\<close>, once its backslashes are read as
  slashes, is ignored. With \<^verbatim>\<open>build/\<close> among the patterns every path whose last segment
  is \<^verbatim>\<open>build\<close> is ignored.
\<close>

theorem dir_pattern_ignored:
  assumes "d @ ''/'' \<in> set S"
  shows "(fnmatch (replace_backslash P @ ''/'') (''*/'' @ d @ ''/'') \<or>
          fnmatch (replace_backslash P @ ''/'') (d @ ''/'') \<longrightarrow> should_ignore P S) \<and>
         (CHR ''['' \<notin> set d \<and>
          (replace_backslash P = d \<or> (\<exists>X. replace_backslash P = X @ ''/'' @ d)) \<longrightarrow>
            should_ignore P S) \<and>
         (d = ''build'' \<and> basename (replace_backslash P) = ''build'' \<longrightarrow> should_ignore P S)"
proof -
  have e: "endswith (d @ ''/'') ''/''" by (simp add: endswith_def)
  have g: "fnmatch (replace_backslash P @ ''/'') (''*/'' @ d @ ''/'') \<or>
           fnmatch (replace_backslash P @ ''/'') (d @ ''/'') \<Longrightarrow> should_ignore P S"
    unfolding should_ignore_def should_ignore_loop_iff using assms e
    by (auto simp: hits_def intro!: bexI [of _ "d @ ''/''"])
  have l: "should_ignore P S"
    if nb: "CHR ''['' \<notin> set d"
      and p: "replace_backslash P = d \<or> (\<exists>X. replace_backslash P = X @ ''/'' @ d)"
  proof -
    from nb have nb': "CHR ''['' \<notin> set (d @ ''/'')" by simp
    from p show ?thesis
    proof
      assume "replace_backslash P = d"
      then show ?thesis using g fnmatch_self [OF nb'] by simp
    next
      assume "\<exists>X. replace_backslash P = X @ ''/'' @ d"
      then obtain X where "replace_backslash P = X @ ''/'' @ d" ..
      then show ?thesis using g fnmatch_star_slash [OF nb', of X] by simp
    qed
  qed
  have b: "should_ignore P S" if "d = ''build''" "basename (replace_backslash P) = ''build''"
    using l basename_split [of "replace_backslash P"] that by auto
  show ?thesis using g l b by blast
qed

theorem dir_pattern_ignored_witness:
  "should_ignore ''build'' [''*.log'', ''build/''] \<and>
   should_ignore [CHR ''s'', CHR ''r'', CHR ''c'', BACKSLASH, CHR ''b'', CHR ''u'', CHR ''i'', CHR ''l'', CHR ''d'']
     [''*.log'', ''build/''] \<and>
   should_ignore ''a/b/build'' [''*.log'', ''build/'']"
  using dir_pattern_ignored [of "''build''" "[''*.log'', ''build/'']" "''build''"]
    dir_pattern_ignored [of "''build''" "[''*.log'', ''build/'']"
      "[CHR ''s'', CHR ''r'', CHR ''c'', BACKSLASH, CHR ''b'', CHR ''u'', CHR ''i'', CHR ''l'', CHR ''d'']"]
    dir_pattern_ignored [of "''build''" "[''*.log'', ''build/'']" "''a/b/build''"]
  by (simp add: replace_backslash_def basename_def)

text \<open>
  Claim C1 as stated does not hold for every \<open>d\<close>: with an opening bracket \<open>d\<close> is a
  character set, and the path that is the text of \<open>d\<close> is not ignored.
\<close>

theorem bracket_dir_pattern_counterexample:
  "''[a]/'' \<in> set [''[a]/''] \<and> \<not> should_ignore ''[a]'' [''[a]/'']"
  by code_simp

text \<open>
  Claim C2. A path whose last segment matches a pattern of the list as a glob is ignored,
  whichever pattern it is. (A pattern that ends with a slash matches no last segment, see
  \<open>dir_pattern_misses_basename\<close>; for every other pattern the test on the last segment is
  part of the first \<^verbatim>\<open>elif\<close> branch.)
\<close>

theorem basename_match_ignored:
  "pat \<in> set S \<Longrightarrow> fnmatch (basename (replace_backslash P)) pat \<Longrightarrow> should_ignore P S"
  unfolding should_ignore_def should_ignore_loop_iff
  using dir_pattern_misses_basename by (auto simp: hits_def intro!: bexI [of _ pat])


theorem basename_match_ignored_witness:
  "should_ignore ''docs/guide/README.md'' [''build/'', ''*.md''] \<and>
   should_ignore ''src/a.txt'' [''[a-c].txt'']"
  using basename_match_ignored [of "''*.md''" "[''build/'', ''*.md'']" "''docs/guide/README.md''"]
    basename_match_ignored [of "''[a-c].txt''" "[''[a-c].txt'']" "''src/a.txt''"]
  by (simp add: replace_backslash_def basename_def) code_simp

section \<open>The walker prunes ignored directories\<close>

lemma walk_provenance:
  "(r, dirs, files) \<in> set (walk pats dirpath n) \<Longrightarrow>
     \<exists>ds. r = foldl join dirpath ds \<and> chain_kept pats dirpath ds \<and>
          (names_ok n \<longrightarrow> list_all name_ok ds \<and> list_all name_ok files)"
proof (induction pats dirpath n arbitrary: r dirs files rule: walk.induct)
  case (1 ignore_patterns dirpath r)
  then show ?case by simp
next
  case (2 ignore_patterns dirpath es)
  from "2.prems" consider
    (here) "r = dirpath" "files = file_names es"
    | (below) e where "e \<in> set (kept_dirs ignore_patterns dirpath es)"
        "(r, dirs, files) \<in> set (walk ignore_patterns (join dirpath (fst e)) (snd e))"
    by auto
  then show ?case
  proof cases
    case here
    have "names_ok (Dir es) \<longrightarrow> list_all name_ok (file_names es)"
      by (auto simp: file_names_def list_all_iff)
    with here show ?thesis by (intro exI [of _ "[]"]) simp
  next
    case below
    from "2.IH" [OF below] obtain ds where ds: "r = foldl join (join dirpath (fst e)) ds"
      "chain_kept ignore_patterns (join dirpath (fst e)) ds"
      "names_ok (snd e) \<longrightarrow> list_all name_ok ds \<and> list_all name_ok files"
      by auto
    from below(1) have k: "e \<in> set es"
      "\<not> should_ignore (relpath (join dirpath (fst e))) ignore_patterns"
      by (auto simp: kept_dirs_def)
    then have "names_ok (Dir es) \<longrightarrow> name_ok (fst e) \<and> names_ok (snd e)"
      by (auto simp: list_all_iff)
    with ds k(2) show ?thesis by (intro exI [of _ "fst e # ds"]) auto
  qed
qed

lemma process_file_entries:
  "process_file fs pats root st f = Inr st' \<Longrightarrow> x \<in> entries st' \<Longrightarrow>
     x \<in> entries st \<or> (fst x = relpath (join root f) \<and> \<not> should_ignore (fst x) pats)"
  by (auto simp: process_file_def entries_def Let_def split: if_splits sum.splits)

lemma process_files_entries:
  "process_files fs pats root st files = Inr st' \<Longrightarrow> x \<in> entries st' \<Longrightarrow>
     x \<in> entries st \<or>
     (\<exists>f \<in> set files. fst x = relpath (join root f) \<and> \<not> should_ignore (fst x) pats)"
proof (induction files arbitrary: st)
  case Nil
  then show ?case by simp
next
  case (Cons f files)
  from Cons.prems(1) obtain st1 where s: "process_file fs pats root st f = Inr st1"
    "process_files fs pats root st1 files = Inr st'" by (auto split: sum.splits)
  from Cons.IH [OF s(2) Cons.prems(2)] process_file_entries [OF s(1), of x]
  show ?case by auto
qed

lemma process_dirs_entries:
  "process_dirs fs pats st ts = Inr st' \<Longrightarrow> x \<in> entries st' \<Longrightarrow>
     x \<in> entries st \<or>
     (\<exists>t \<in> set ts. \<exists>f \<in> set (snd (snd t)).
        fst x = relpath (join (fst t) f) \<and> \<not> should_ignore (fst x) pats)"
proof (induction ts arbitrary: st)
  case Nil
  then show ?case by simp
next
  case (Cons t ts)
  from Cons.prems(1) obtain st1 where s:
    "process_files fs pats (fst t) st (snd (snd t)) = Inr st1"
    "process_dirs fs pats st1 ts = Inr st'" by (auto split: sum.splits)
  from Cons.IH [OF s(2) Cons.prems(2)] process_files_entries [OF s(1), of x]
  show ?case by auto
qed

lemma os_walk_provenance:
  assumes "t \<in> set (os_walk fs pats)"
  shows "\<exists>ds. fst t = foldl join ''.'' ds \<and> chain_kept pats ''.'' ds \<and>
           (start_names_ok fs \<longrightarrow> list_all name_ok ds \<and> list_all name_ok (snd (snd t)))"
proof -
  from assms obtain n where n: "resolve fs ''.'' = Some n" "t \<in> set (walk pats ''.'' n)"
    by (cases "resolve fs ''.''") (auto simp: os_walk_def)
  then have "(fst t, fst (snd t), snd (snd t)) \<in> set (walk pats ''.'' n)" by simp
  from walk_provenance [OF this] n(1) show ?thesis by (auto simp: start_names_ok_def)
qed

lemma collect_provenance:
  assumes "collect fs pats = Inr st" and "x \<in> entries st"
  shows "\<exists>ds f. fst x = relpath (join (foldl join ''.'' ds) f) \<and> chain_kept pats ''.'' ds \<and>
            \<not> should_ignore (fst x) pats \<and> (start_names_ok fs \<longrightarrow> list_all name_ok (ds @ [f]))"
proof -
  from process_dirs_entries [OF assms(1) [unfolded collect_def] assms(2)]
  obtain t f where t: "t \<in> set (os_walk fs pats)" "f \<in> set (snd (snd t))"
    "fst x = relpath (join (fst t) f)" "\<not> should_ignore (fst x) pats"
    by (auto simp: entries_def empty_lists_def)
  from os_walk_provenance [OF t(1)] obtain ds where "fst t = foldl join ''.'' ds"
    "chain_kept pats ''.'' ds"
    "start_names_ok fs \<longrightarrow> list_all name_ok ds \<and> list_all name_ok (snd (snd t))" by auto
  with t show ?thesis by (intro exI [of _ ds] exI [of _ f]) (auto simp: list_all_iff)
qed

lemma split_slash_plain: "SLASH \<notin> set a \<Longrightarrow> split_slash a = [a]"
  by (induction a) auto

lemma split_slash_append: "SLASH \<notin> set a \<Longrightarrow> split_slash (a @ SLASH # rest) = a # split_slash rest"
  by (induction a) auto

lemma join_name: "name_ok w \<Longrightarrow> a \<noteq> [] \<Longrightarrow> last a \<noteq> SLASH \<Longrightarrow> join a w = a @ SLASH # w"
  by (cases w; cases a rule: rev_cases) (auto simp: join_def endswith_def name_ok_def)

lemma foldl_join_names:
  "list_all name_ok ws \<Longrightarrow> a \<noteq> [] \<Longrightarrow> last a \<noteq> SLASH \<Longrightarrow> foldl join a ws = a @ slashed ws"
proof (induction ws arbitrary: a)
  case Nil
  then show ?case by (simp add: slashed_def)
next
  case (Cons w ws)
  then have w: "name_ok w" by simp
  then have j: "join a w = a @ SLASH # w" using Cons.prems by (simp add: join_name)
  from w have "w \<noteq> []" "SLASH \<notin> set w" by (simp_all add: name_ok_def)
  then have "last w \<noteq> SLASH" by (metis last_in_set)
  with \<open>w \<noteq> []\<close> have "last (a @ SLASH # w) \<noteq> SLASH" by simp
  with Cons.IH [of "a @ SLASH # w"] Cons.prems j show ?case by (simp add: slashed_def)
qed

lemma split_slash_slashed:
  "list_all name_ok ws \<Longrightarrow> SLASH \<notin> set a \<Longrightarrow> split_slash (a @ slashed ws) = a # ws"
proof (induction ws arbitrary: a)
  case Nil
  then show ?case by (simp add: slashed_def split_slash_plain)
next
  case (Cons w ws)
  then have "SLASH \<notin> set w" by (simp add: name_ok_def)
  with Cons.IH [of w] Cons.prems have "split_slash (w @ slashed ws) = w # ws" by simp
  with Cons.prems(2) show ?case by (simp add: slashed_def split_slash_append)
qed

lemma filter_names: "list_all name_ok ws \<Longrightarrow> filter (\<lambda>w. w \<noteq> [] \<and> w \<noteq> ''.'') ws = ws"
  by (induction ws) (auto simp: name_ok_def)

lemma components_walk_path:
  assumes "list_all name_ok ws"
  shows "components (foldl join ''.'' ws) = ws"
proof -
  have "foldl join ''.'' ws = ''.'' @ slashed ws" using assms by (simp add: foldl_join_names)
  moreover have "split_slash (''.'' @ slashed ws) = ''.'' # ws"
    using assms by (intro split_slash_slashed) simp_all
  ultimately show ?thesis using assms by (simp add: components_def filter_names del: append.simps)
qed

lemma join_all_slashed: "join_all (w # ws) = w @ slashed ws"
  by (induction ws arbitrary: w) (auto simp: slashed_def)

lemma components_join_all: "list_all name_ok ws \<Longrightarrow> components (join_all ws) = ws"
proof (cases ws)
  case Nil
  then show ?thesis by (simp add: components_def)
next
  case (Cons w ws')
  assume a: "list_all name_ok ws"
  with Cons have "SLASH \<notin> set w" "list_all name_ok ws'" by (auto simp: name_ok_def)
  then have "split_slash (join_all ws) = ws" using Cons by (simp add: join_all_slashed split_slash_slashed)
  with a show ?thesis by (simp add: components_def filter_names)
qed

lemma relpath_walk_path:
  "list_all name_ok ws \<Longrightarrow> ws \<noteq> [] \<Longrightarrow> relpath (foldl join ''.'' ws) = join_all ws"
  by (simp add: relpath_def components_walk_path)

lemma chain_kept_take:
  "chain_kept pats dirpath ds \<Longrightarrow> 1 \<le> i \<Longrightarrow> i \<le> length ds \<Longrightarrow>
     \<not> should_ignore (relpath (foldl join dirpath (take i ds))) pats"
proof (induction ds arbitrary: dirpath i)
  case Nil
  then show ?case by simp
next
  case (Cons d ds)
  show ?case
  proof (cases "i = 1")
    case True
    with Cons.prems show ?thesis by simp
  next
    case False
    with Cons.prems obtain j where j: "i = Suc j" "1 \<le> j" "j \<le> length ds"
      by (cases i) auto
    with Cons.IH [of "join dirpath d" j] Cons.prems show ?thesis by simp
  qed
qed

lemma recorded_ancestors_kept:
  assumes ok: "start_names_ok fs" and c: "collect fs pats = Inr st" and x: "x \<in> entries st"
    and i: "1 \<le> i" "i < length (components (fst x))"
  shows "\<not> should_ignore (join_all (take i (components (fst x)))) pats"
proof -
  from collect_provenance [OF c x] ok obtain ds f where
    p: "fst x = relpath (join (foldl join ''.'' ds) f)" and k: "chain_kept pats ''.'' ds"
    and n: "list_all name_ok (ds @ [f])" by auto
  have "fst x = relpath (foldl join ''.'' (ds @ [f]))" using p by simp
  then have fx: "fst x = join_all (ds @ [f])" using n relpath_walk_path [of "ds @ [f]"] by simp
  then have comps: "components (fst x) = ds @ [f]" using n by (simp add: components_join_all)
  with i have il: "i \<le> length ds" by simp
  then have tk: "take i (components (fst x)) = take i ds" using comps by simp
  from n il i(1) have "list_all name_ok (take i ds)" "take i ds \<noteq> []"
    by (auto simp: list_all_iff dest: in_set_takeD)
  then have "relpath (foldl join ''.'' (take i ds)) = join_all (take i ds)"
    by (rule relpath_walk_path)
  with chain_kept_take [OF k i(1) il] tk show ?thesis by simp
qed

lemma visited_ancestors_kept:
  assumes ok: "start_names_ok fs" and t: "t \<in> set (os_walk fs pats)"
    and i: "1 \<le> i" "i \<le> length (components (fst t))"
  shows "\<not> should_ignore (join_all (take i (components (fst t)))) pats"
proof -
  from os_walk_provenance [OF t] ok obtain ds where
    p: "fst t = foldl join ''.'' ds" and k: "chain_kept pats ''.'' ds"
    and n: "list_all name_ok ds" by auto
  from p n have comps: "components (fst t) = ds" by (simp add: components_walk_path)
  with i have il: "i \<le> length ds" by simp
  from n il i(1) have "list_all name_ok (take i ds)" "take i ds \<noteq> []"
    by (auto simp: list_all_iff dest: in_set_takeD)
  then have "relpath (foldl join ''.'' (take i ds)) = join_all (take i ds)"
    by (rule relpath_walk_path)
  with chain_kept_take [OF k i(1) il] comps show ?thesis by simp
qed

text \<open>
  Claim C5. Every directory the walk enters is reached from the start directory through
  directories whose relative paths are not ignored, and every record comes from a file in
  such a directory. With entry names as a file system has them, no directory on the way
  to a directory that is entered, and no directory above a recorded file, each read off
  the path itself, is ignored: nothing below an ignored directory is entered, and a file
  below an ignored directory is in none of the three lists.
\<close>

theorem walker_prunes_ignored:
  "(\<forall>t \<in> set (os_walk fs pats).
      \<exists>ds. fst t = foldl join ''.'' ds \<and> chain_kept pats ''.'' ds \<and>
           (start_names_ok fs \<longrightarrow> list_all name_ok ds)) \<and>
   (collect fs pats = Inr st \<longrightarrow>
      (\<forall>x \<in> entries st.
         \<exists>ds f. fst x = relpath (join (foldl join ''.'' ds) f) \<and> chain_kept pats ''.'' ds \<and>
                (start_names_ok fs \<longrightarrow> list_all name_ok (ds @ [f])))) \<and>
   (start_names_ok fs \<and> collect fs pats = Inr st \<longrightarrow>
      (\<forall>x \<in> entries st. \<forall>i. 1 \<le> i \<and> i < length (components (fst x)) \<longrightarrow>
         \<not> should_ignore (join_all (take i (components (fst x)))) pats)) \<and>
   (start_names_ok fs \<longrightarrow>
      (\<forall>t \<in> set (os_walk fs pats). \<forall>i. 1 \<le> i \<and> i \<le> length (components (fst t)) \<longrightarrow>
         \<not> should_ignore (join_all (take i (components (fst t)))) pats))"
proof (intro conjI ballI impI allI)
  fix t assume "t \<in> set (os_walk fs pats)"
  then show "\<exists>ds. fst t = foldl join ''.'' ds \<and> chain_kept pats ''.'' ds \<and>
           (start_names_ok fs \<longrightarrow> list_all name_ok ds)"
    using os_walk_provenance by blast
next
  fix x assume "collect fs pats = Inr st" "x \<in> entries st"
  then show "\<exists>ds f. fst x = relpath (join (foldl join ''.'' ds) f) \<and> chain_kept pats ''.'' ds \<and>
                (start_names_ok fs \<longrightarrow> list_all name_ok (ds @ [f]))"
    using collect_provenance by blast
next
  fix x i
  assume "start_names_ok fs \<and> collect fs pats = Inr st" "x \<in> entries st"
    "1 \<le> i \<and> i < length (components (fst x))"
  then show "\<not> should_ignore (join_all (take i (components (fst x)))) pats"
    using recorded_ancestors_kept by blast
next
  fix t i
  assume "start_names_ok fs" "t \<in> set (os_walk fs pats)"
    "1 \<le> i \<and> i \<le> length (components (fst t))"
  then show "\<not> should_ignore (join_all (take i (components (fst t)))) pats"
    using visited_ancestors_kept by blast
qed

theorem walker_prunes_ignored_witness:
  "start_names_ok prune_fs \<and>
   should_ignore ''node_modules'' common_patterns \<and>
   \<not> should_ignore ''src'' common_patterns \<and>
   map fst (os_walk prune_fs common_patterns) = [''.'', ''./src''] \<and>
   collect prune_fs common_patterns =
     Inr \<lparr>client_files = [], server_files = [], other_files = [(''src/a.js'', 1)]\<rparr>"
proof -
  have ok: "start_names_ok prune_fs" by code_simp
  have c: "collect prune_fs common_patterns =
     Inr \<lparr>client_files = [], server_files = [], other_files = [(''src/a.js'', 1)]\<rparr>" by code_simp
  have x: "(''src/a.js'', 1) \<in> entries \<lparr>client_files = [], server_files = [],
     other_files = [(''src/a.js'', 1)]\<rparr>"
    by (simp add: entries_def)
  have k: "components ''src/a.js'' = [''src'', ''a.js'']" by code_simp
  have "\<not> should_ignore (join_all (take 1 (components (fst (''src/a.js'', 1::nat))))) common_patterns"
    using walker_prunes_ignored [of prune_fs common_patterns
        "\<lparr>client_files = [], server_files = [], other_files = [(''src/a.js'', 1)]\<rparr>"] ok c x k
    by fastforce
  then have s: "\<not> should_ignore ''src'' common_patterns" by (simp add: k)
  have n: "should_ignore ''node_modules'' common_patterns" by code_simp
  have w: "map fst (os_walk prune_fs common_patterns) = [''.'', ''./src'']" by code_simp
  show ?thesis using ok n s w c by blast
qed

section \<open>The end-to-end scenario\<close>

lemma runs_in_place: "runs_in fs t \<Longrightarrow> \<exists>up. cwd_place fs = Some (t # up)"
  by (auto simp: runs_in_def split: option.splits list.splits)

lemma scenario_resolve:
  assumes "cwd_place fs = Some (scenario_tree a b c # up)"
  shows "resolve fs ''.'' = Some (scenario_tree a b c)"
    and "resolve fs ''./.gitignore'' = Some (File (Inr [CHR ''*'', CHR ''.'', CHR ''m'', CHR ''d'', LF]))"
    and "resolve fs ''./client/app.ts'' = Some (File (Inr a))"
    and "resolve fs ''./server/main.go'' = Some (File (Inr b))"
  using assms by (simp_all add: resolve_def scenario_tree_def)

lemma scenario_ignore_patterns:
  assumes "cwd_place fs = Some (scenario_tree a b c # up)"
  shows "ignore_patterns_of fs = Inr scenario_patterns"
proof -
  have j: "join ''.'' ''.gitignore'' = ''./.gitignore''" by code_simp
  have l: "parse_lines [] (file_lines [CHR ''*'', CHR ''.'', CHR ''m'', CHR ''d'', LF]) = [''*.md'']"
    by code_simp
  show ?thesis
    using scenario_resolve(2) [OF assms]
    by (simp add: ignore_patterns_of_def j parse_gitignore_def path_exists_def open_read_def l
        scenario_patterns_def)
qed

lemma scenario_walk:
  "walk scenario_patterns ''.'' (scenario_tree a b c) =
     [(''.'', [''client'', ''server''], [''README.md'', ''.gitignore'']),
      (''./client'', [], [''app.ts'']),
      (''./server'', [], [''main.go''])]"
  unfolding scenario_tree_def scenario_patterns_def by code_simp

lemma scenario_paths:
  "join ''.'' ''README.md'' = ''./README.md''"
  "join ''.'' ''.gitignore'' = ''./.gitignore''"
  "join ''./client'' ''app.ts'' = ''./client/app.ts''"
  "join ''./server'' ''main.go'' = ''./server/main.go''"
  "relpath ''./README.md'' = ''README.md''"
  "relpath ''./.gitignore'' = ''.gitignore''"
  "relpath ''./client/app.ts'' = ''client/app.ts''"
  "relpath ''./server/main.go'' = ''server/main.go''"
  by code_simp+

lemma scenario_tests:
  "should_ignore ''README.md'' scenario_patterns"
  "\<not> is_text_file ''./.gitignore''"
  "\<not> should_ignore ''client/app.ts'' scenario_patterns"
  "is_text_file ''./client/app.ts''"
  "\<not> should_ignore ''server/main.go'' scenario_patterns"
  "is_text_file ''./server/main.go''"
  "categorize_file ''client/app.ts'' = ''client''"
  "categorize_file ''server/main.go'' = ''server''"
  unfolding scenario_patterns_def by code_simp+

lemma scenario_collect:
  assumes "cwd_place fs = Some (scenario_tree a b c # up)"
    and "length (file_lines a) = 10" and "length (file_lines b) = 20"
  shows "collect fs scenario_patterns =
           Inr \<lparr>client_files = [(''client/app.ts'', 10)], server_files = [(''server/main.go'', 20)],
                other_files = []\<rparr>"
proof -
  have ca: "count_lines fs ''./client/app.ts'' = Inr 10"
    using assms(2) scenario_resolve(3) [OF assms(1)]
    by (simp add: count_lines_def open_read_def sum_list_triv)
  have cb: "count_lines fs ''./server/main.go'' = Inr 20"
    using assms(3) scenario_resolve(4) [OF assms(1)]
    by (simp add: count_lines_def open_read_def sum_list_triv)
  show ?thesis
    unfolding collect_def os_walk_def
    by (simp add: scenario_resolve(1) [OF assms(1)] scenario_walk process_file_def
        scenario_paths scenario_tests ca cb empty_lists_def Let_def)
qed

lemma scenario_report_eq:
  "report \<lparr>client_files = [(''client/app.ts'', 10)], server_files = [(''server/main.go'', 20)],
            other_files = []\<rparr> = scenario_report"
  unfolding scenario_report_def by code_simp

text \<open>
  Claim C3. When the script runs in the directory that holds \<^verbatim>\<open>client/app.ts\<close> of 10
  lines, \<^verbatim>\<open>server/main.go\<close> of 20 lines and \<^verbatim>\<open>README.md\<close> of 5 lines, and an ignore file
  with the pattern \<^verbatim>\<open>*.md\<close>, the patterns are \<^verbatim>\<open>*.md\<close> and the eight common ones, and
  the report lists one client file of 10 lines, one server file of 20 lines, no other
  file, and 2 files and 30 lines in total.
\<close>

theorem end_to_end_scenario:
  assumes "runs_in fs (scenario_tree app main_go readme)"
    and "length (file_lines app) = 10" and "length (file_lines main_go) = 20"
    and "length (file_lines readme) = 5"
  shows "ignore_patterns_of fs = Inr (''*.md'' # common_patterns) \<and>
         main fs = Inr scenario_report"
proof -
  from runs_in_place [OF assms(1)] obtain up
    where p: "cwd_place fs = Some (scenario_tree app main_go readme # up)" ..
  show ?thesis
    using scenario_ignore_patterns [OF p] scenario_collect [OF p assms(2,3)]
    by (simp add: main_def scenario_report_eq scenario_patterns_def [symmetric])
qed

theorem end_to_end_scenario_witness:
  "main (scenario_fs (concat (replicate 10 [CHR ''x'', LF])) (concat (replicate 20 [CHR ''y'', LF]))
          [CHR ''#'', CHR '' '', CHR ''a'', LF, LF, CHR ''b'', CR, LF, CHR ''c'', CR, CHR ''d''])
     = Inr scenario_report"
proof -
  have "runs_in (scenario_fs a b c) (scenario_tree a b c)" for a b c
    by (simp add: runs_in_def cwd_place_def scenario_fs_def)
  moreover have "length (file_lines (concat (replicate 10 [CHR ''x'', LF]))) = 10" by code_simp
  moreover have "length (file_lines (concat (replicate 20 [CHR ''y'', LF]))) = 20" by code_simp
  moreover have "length (file_lines [CHR ''#'', CHR '' '', CHR ''a'', LF, LF, CHR ''b'', CR, LF, CHR ''c'', CR, CHR ''d'']) = 5"
    by code_simp
  ultimately show ?thesis using end_to_end_scenario by blast
qed

end
